theory Spec2Isabelle
  imports Main "HOL-Library.AList" "HOL-Library.Multiset" "HOL-Library.Sublist" "HOL-Library.Word"
begin

section \<open>The Huffman codec of huff.py\<close>

text \<open>
  The codec part of \<^verbatim>\<open>src/huff.py\<close> (classes \<^verbatim>\<open>Node\<close> and \<^verbatim>\<open>HuffmanCoding\<close>), embedded
  function by function. The text is a sequence of symbols of any type \<open>'a\<close> (the characters
  of a Python \<^verbatim>\<open>str\<close>); bit strings are Python strings over the characters 0 and 1 and
  stay strings here. The compressed data is a \<^verbatim>\<open>bytes\<close> object: a list of 8-bit words.
  Exceptions are values of the type \<open>error\<close>; the two dictionaries of the codec object
  are a record that \<open>compress\<close> takes and returns.
\<close>

subsection \<open>Data\<close>

text \<open>
  The first three errors are the Python exceptions the code can raise. The last two are
  the names the specification uses; no path of the source raises them.
\<close>

datatype error = IndexError | KeyError | ValueError | EmptyInputError | CorruptStreamError

text \<open>
  \<^verbatim>\<open>class Node\<close>: \<open>char\<close> is \<^verbatim>\<open>None\<close> for a merged node, \<open>left\<close> and \<open>right\<close> are
  \<^verbatim>\<open>None\<close> until \<^verbatim>\<open>merge_nodes\<close> sets them.
\<close>

datatype 'a node =
  Node (char: "'a option") (freq: int) (left: "'a node option") (right: "'a node option")

text \<open>\<^verbatim>\<open>Node.__lt__\<close>: the only comparison the heap uses.\<close>

definition node_lt :: "'a node \<Rightarrow> 'a node \<Rightarrow> bool" where
  "node_lt self other = (freq self < freq other)"

text \<open>The state of a \<^verbatim>\<open>HuffmanCoding\<close> object, and \<^verbatim>\<open>__init__\<close>.\<close>

record 'a codec =
  codes :: "'a \<rightharpoonup> string"
  reverse_mapping :: "string \<rightharpoonup> 'a"

definition HuffmanCoding_init :: "'a codec" where
  "HuffmanCoding_init = \<lparr>codes = Map.empty, reverse_mapping = Map.empty\<rparr>"

type_synonym byte = "8 word"

subsection \<open>Python built-ins the codec uses\<close>

text \<open>
  \<^verbatim>\<open>Counter(text)\<close>: a dictionary in insertion order, that is in the order of first
  occurrence; counting a symbol again keeps its place.
\<close>

definition build_frequency_dict :: "'a list \<Rightarrow> ('a \<times> int) list" where
  "build_frequency_dict text =
     foldl (\<lambda>d c. AList.update c ((case map_of d c of None \<Rightarrow> 0 | Some n \<Rightarrow> n) + 1) d) [] text"

text \<open>
  A slice \<^verbatim>\<open>s[lo:hi]\<close> with integer bounds: a negative bound counts from the end, and
  both are clamped to the string.
\<close>

definition slice :: "'a list \<Rightarrow> int \<Rightarrow> int \<Rightarrow> 'a list" where
  "slice s lo hi =
     (let n = int (length s);
          lo' = (if lo < 0 then max 0 (lo + n) else min lo n);
          hi' = (if hi < 0 then max 0 (hi + n) else min hi n)
      in drop (nat lo') (take (nat hi') s))"

text \<open>
  \<^verbatim>\<open>int(s, 2)\<close> on a string of binary digits; the empty string raises \<^verbatim>\<open>ValueError\<close>.
  Python also reads signs, blanks, underscores and a \<^verbatim>\<open>0b\<close> prefix; the codec builds its
  bit strings from the digits 0 and 1 only, and every other string is an error here.
\<close>

definition is_bit :: "char \<Rightarrow> bool" where
  "is_bit c = (c = CHR ''0'' \<or> c = CHR ''1'')"

definition bitval :: "string \<Rightarrow> nat" where
  "bitval s = foldl (\<lambda>a c. 2 * a + (if c = CHR ''1'' then 1 else 0)) 0 s"

definition int2 :: "string \<Rightarrow> error + nat" where
  "int2 s = (if s = [] \<or> \<not> list_all is_bit s then Inl ValueError else Inr (bitval s))"

text \<open>\<^verbatim>\<open>bin(n)[2:]\<close> and the format \<^verbatim>\<open>b\<close>: the binary digits of \<open>n\<close>, most significant first.\<close>

fun bin :: "nat \<Rightarrow> string" where
  "bin n = (if n < 2 then [if n = 0 then CHR ''0'' else CHR ''1'']
            else bin (n div 2) @ [if n mod 2 = 0 then CHR ''0'' else CHR ''1''])"

declare bin.simps [simp del]

text \<open>\<^verbatim>\<open>s.rjust(w, c)\<close>, which is also the zero padding of the format \<^verbatim>\<open>08b\<close>.\<close>

definition rjust :: "nat \<Rightarrow> char \<Rightarrow> string \<Rightarrow> string" where
  "rjust w c s = replicate (w - length s) c @ s"

subsection \<open>heapq\<close>

text \<open>
  \<^verbatim>\<open>heapq\<close> of the Python standard library, as \<^verbatim>\<open>Lib/heapq.py\<close> writes it. The heap is
  a list, changed in place there and returned here. Every index read below is in range
  at the calls the library makes.
\<close>

function siftdown_loop :: "'a node list \<Rightarrow> nat \<Rightarrow> nat \<Rightarrow> 'a node \<Rightarrow> 'a node list" where
  "siftdown_loop heap startpos pos newitem =
     (if pos > startpos then
        (let parentpos = (pos - 1) div 2;
             parent = heap ! parentpos
         in if node_lt newitem parent
            then siftdown_loop (heap[pos := parent]) startpos parentpos newitem
            else heap[pos := newitem])
      else heap[pos := newitem])"
  by pat_completeness auto
termination
  by (relation "measure (\<lambda>(heap, startpos, pos, newitem). pos)") auto

declare siftdown_loop.simps [simp del]

definition siftdown :: "'a node list \<Rightarrow> nat \<Rightarrow> nat \<Rightarrow> 'a node list" where
  "siftdown heap startpos pos = siftdown_loop heap startpos pos (heap ! pos)"

function siftup_loop :: "'a node list \<Rightarrow> nat \<Rightarrow> nat \<Rightarrow> 'a node list \<times> nat" where
  "siftup_loop heap endpos pos =
     (let childpos = 2 * pos + 1
      in if childpos < endpos then
           (let rightpos = childpos + 1;
                childpos' = (if rightpos < endpos \<and> \<not> node_lt (heap ! childpos) (heap ! rightpos)
                             then rightpos else childpos)
            in siftup_loop (heap[pos := heap ! childpos']) endpos childpos')
         else (heap, pos))"
  by pat_completeness auto
termination
  by (relation "measure (\<lambda>(heap, endpos, pos). endpos - pos)") (auto simp: Let_def)

declare siftup_loop.simps [simp del]

definition siftup :: "'a node list \<Rightarrow> nat \<Rightarrow> 'a node list" where
  "siftup heap pos =
     (let endpos = length heap;
          startpos = pos;
          newitem = heap ! pos;
          (heap', pos') = siftup_loop heap endpos pos
      in siftdown (heap'[pos' := newitem]) startpos pos')"

definition heappush :: "'a node list \<Rightarrow> 'a node \<Rightarrow> 'a node list" where
  "heappush heap item = siftdown (heap @ [item]) 0 (length heap)"

definition heappop :: "'a node list \<Rightarrow> error + ('a node \<times> 'a node list)" where
  "heappop heap =
     (if heap = [] then Inl IndexError
      else (let lastelt = last heap;
                heap' = butlast heap
            in if heap' \<noteq> [] then Inr (heap' ! 0, siftup (heap'[0 := lastelt]) 0)
               else Inr (lastelt, heap')))"

definition heapify :: "'a node list \<Rightarrow> 'a node list" where
  "heapify x = fold (\<lambda>i h. siftup h i) (rev [0 ..< length x div 2]) x"

subsection \<open>The methods of HuffmanCoding\<close>

definition build_heap :: "('a \<times> int) list \<Rightarrow> 'a node list" where
  "build_heap frequency = heapify (map (\<lambda>(c, f). Node (Some c) f None None) frequency)"

text \<open>The length of the heap after a pop and after a push, for the loop of \<open>merge_nodes\<close>.\<close>

lemma length_siftdown_loop [simp]:
  "length (siftdown_loop heap startpos pos newitem) = length heap"
  by (induction heap startpos pos newitem rule: siftdown_loop.induct)
     (subst siftdown_loop.simps, simp add: Let_def)

lemma length_siftdown [simp]: "length (siftdown heap startpos pos) = length heap"
  by (simp add: siftdown_def)

lemma length_siftup_loop [simp]: "length (fst (siftup_loop heap endpos pos)) = length heap"
  by (induction heap endpos pos rule: siftup_loop.induct)
     (subst siftup_loop.simps, simp add: Let_def)

lemma length_siftup [simp]: "length (siftup heap pos) = length heap"
proof -
  obtain h p where hp: "siftup_loop heap (length heap) pos = (h, p)"
    by (cases "siftup_loop heap (length heap) pos")
  have "length h = length heap"
    using length_siftup_loop [of heap "length heap" pos] by (simp add: hp)
  then show ?thesis
    by (simp add: siftup_def hp)
qed

lemma length_heappush [simp]: "length (heappush heap item) = Suc (length heap)"
  by (simp add: heappush_def)

lemma length_heappop:
  assumes "heappop heap = Inr (x, heap')"
  shows "Suc (length heap') = length heap"
proof -
  from assms have ne: "heap \<noteq> []"
    by (auto simp: heappop_def)
  have "length heap' = length heap - 1"
  proof (cases "butlast heap = []")
    case True
    then have "length (butlast heap) = 0" by simp
    then have "length heap - 1 = 0" by (simp only: length_butlast)
    moreover from True assms ne have "heap' = []" by (simp add: heappop_def Let_def)
    ultimately show ?thesis by simp
  next
    case False
    with assms ne have "heap' = siftup ((butlast heap)[0 := last heap]) 0"
      by (simp add: heappop_def Let_def)
    then show ?thesis by simp
  qed
  with ne show ?thesis by (cases heap) simp_all
qed

function merge_nodes :: "'a node list \<Rightarrow> error + 'a node" where
  "merge_nodes heap =
     (if length heap > 1 then
        (case heappop heap of
           Inl e \<Rightarrow> Inl e
         | Inr (node1, heap1) \<Rightarrow>
             (case heappop heap1 of
                Inl e \<Rightarrow> Inl e
              | Inr (node2, heap2) \<Rightarrow>
                  merge_nodes
                    (heappush heap2 (Node None (freq node1 + freq node2) (Some node1) (Some node2)))))
      else (case heap of [] \<Rightarrow> Inl IndexError | root # _ \<Rightarrow> Inr root))"
  by pat_completeness auto
termination
proof (relation "measure length", goal_cases)
  case 1
  show ?case by simp
next
  case (2 heap x2 node1 heap1 y2 node2 heap2)
  then have "Suc (length heap1) = length heap" "Suc (length heap2) = length heap1"
    by (auto dest: length_heappop)
  then show ?case by simp
qed

declare merge_nodes.simps [simp del]

text \<open>
  \<^verbatim>\<open>build_codes_helper\<close>: the two dictionaries are updated in place, the node before its
  children, the left child before the right one.
\<close>

function build_codes_helper :: "'a node option \<Rightarrow> string \<Rightarrow> 'a codec \<Rightarrow> 'a codec" where
  "build_codes_helper None current_code st = st"
| "build_codes_helper (Some root) current_code st =
     (let st1 = (case char root of
                   None \<Rightarrow> st
                 | Some c \<Rightarrow> st\<lparr>codes := (codes st)(c \<mapsto> current_code),
                                reverse_mapping := (reverse_mapping st)(current_code \<mapsto> c)\<rparr>);
          st2 = build_codes_helper (left root) (current_code @ ''0'') st1
      in build_codes_helper (right root) (current_code @ ''1'') st2)"
  by pat_completeness auto
termination
proof (relation "measure (\<lambda>(root, current_code, st). size_option size root)", goal_cases)
  case 1
  show ?case by simp
next
  case (2 root current_code st)
  show ?case by (cases root) simp
next
  case (3 root current_code st x xa)
  show ?case by (cases root) simp
qed

definition build_codes :: "'a node \<Rightarrow> 'a codec \<Rightarrow> 'a codec" where
  "build_codes root st = build_codes_helper (Some root) '''' st"

text \<open>\<^verbatim>\<open>get_encoded_text\<close>: a symbol without a code raises \<^verbatim>\<open>KeyError\<close>.\<close>

fun get_encoded_text :: "'a list \<Rightarrow> 'a codec \<Rightarrow> error + string" where
  "get_encoded_text [] st = Inr ''''"
| "get_encoded_text (c # text) st =
     (case codes st c of
        None \<Rightarrow> Inl KeyError
      | Some code \<Rightarrow>
          (case get_encoded_text text st of Inl e \<Rightarrow> Inl e | Inr rest \<Rightarrow> Inr (code @ rest)))"

definition pad_encoded_text :: "string \<Rightarrow> string" where
  "pad_encoded_text encoded_text =
     (let extra_padding = 8 - length encoded_text mod 8;
          padded_info = rjust 8 (CHR ''0'') (bin extra_padding);
          padded_text = padded_info @ encoded_text @ replicate extra_padding (CHR ''0'')
      in padded_text)"

text \<open>
  The packing loop of \<^verbatim>\<open>compress\<close>: eight characters at a time (fewer in a last short
  chunk), each read as a binary number and appended to the \<^verbatim>\<open>bytearray\<close>, which raises
  \<^verbatim>\<open>ValueError\<close> for a value above 255.
\<close>

fun pack_bytes :: "string \<Rightarrow> error + byte list" where
  "pack_bytes [] = Inr []"
| "pack_bytes (c # cs) =
     (case int2 (take 8 (c # cs)) of
        Inl e \<Rightarrow> Inl e
      | Inr v \<Rightarrow>
          if v < 256 then
            (case pack_bytes (drop 8 (c # cs)) of
               Inl e \<Rightarrow> Inl e
             | Inr b \<Rightarrow> Inr (of_nat v # b))
          else Inl ValueError)"

text \<open>
  \<^verbatim>\<open>compress\<close> returns the bytes and the root, or raises; the codec object keeps what
  \<^verbatim>\<open>build_codes\<close> wrote in either case, so the state is returned beside the result.
\<close>

definition compress :: "'a list \<Rightarrow> 'a codec \<Rightarrow> (error + byte list \<times> 'a node) \<times> 'a codec" where
  "compress text st =
     (let frequency = build_frequency_dict text;
          heap = build_heap frequency
      in case merge_nodes heap of
           Inl e \<Rightarrow> (Inl e, st)
         | Inr root \<Rightarrow>
             (let st1 = build_codes root st
              in case get_encoded_text text st1 of
                   Inl e \<Rightarrow> (Inl e, st1)
                 | Inr encoded_text \<Rightarrow>
                     (case pack_bytes (pad_encoded_text encoded_text) of
                        Inl e \<Rightarrow> (Inl e, st1)
                      | Inr b \<Rightarrow> (Inr (b, root), st1))))"

definition remove_padding :: "string \<Rightarrow> error + string" where
  "remove_padding padded_encoded_text =
     (let padded_info = slice padded_encoded_text 0 8
      in case int2 padded_info of
           Inl e \<Rightarrow> Inl e
         | Inr extra_padding \<Rightarrow> Inr (slice padded_encoded_text 8 (- int extra_padding)))"

text \<open>
  The scan of \<^verbatim>\<open>decode_text\<close>, with the candidate code and the decoded text as loop
  state; the candidate left at the end is returned too, and \<open>decode_text\<close> drops it as
  the source does.
\<close>

fun decode_loop :: "(string \<rightharpoonup> 'a) \<Rightarrow> string \<Rightarrow> string \<Rightarrow> 'a list \<Rightarrow> string \<times> 'a list" where
  "decode_loop rm [] current_code decoded_text = (current_code, decoded_text)"
| "decode_loop rm (b # rest) current_code decoded_text =
     (case rm (current_code @ [b]) of
        Some c \<Rightarrow> decode_loop rm rest [] (decoded_text @ [c])
      | None \<Rightarrow> decode_loop rm rest (current_code @ [b]) decoded_text)"

definition decode_text :: "string \<Rightarrow> 'a codec \<Rightarrow> 'a list" where
  "decode_text encoded_text st = snd (decode_loop (reverse_mapping st) encoded_text '''' [])"

text \<open>The first loop of \<^verbatim>\<open>decompress\<close>: every byte as eight binary digits.\<close>

definition unpack_bits :: "byte list \<Rightarrow> string" where
  "unpack_bits compressed_data =
     concat (map (\<lambda>byte. rjust 8 (CHR ''0'') (bin (unat byte))) compressed_data)"

definition decompress :: "byte list \<Rightarrow> 'a codec \<Rightarrow> error + 'a list" where
  "decompress compressed_data st =
     (let bit_string = unpack_bits compressed_data
      in case remove_padding bit_string of
           Inl e \<Rightarrow> Inl e
         | Inr actual_text \<Rightarrow> Inr (decode_text actual_text st))"

section \<open>Bit strings and bytes\<close>

text \<open>
  The binary digits of a number below 256, padded to eight characters, read back as that
  number: the header byte and every byte of the payload.
\<close>

lemma is_bit_digits [simp]: "is_bit (CHR ''0'')" "is_bit (CHR ''1'')"
  by (simp_all add: is_bit_def)

lemma list_all_is_bit_bin: "list_all is_bit (bin n)"
proof (induction n rule: bin.induct)
  case (1 n)
  show ?case
  proof (cases "n < 2")
    case True
    then show ?thesis by (subst bin.simps) simp
  next
    case False
    with 1 show ?thesis by (subst bin.simps) simp
  qed
qed

lemma length_bin_le: "n < 2 ^ k \<Longrightarrow> 0 < k \<Longrightarrow> length (bin n) \<le> k"
proof (induction n arbitrary: k rule: bin.induct)
  case (1 n)
  show ?case
  proof (cases "n < 2")
    case True
    with "1.prems" show ?thesis by (subst bin.simps) simp
  next
    case False
    from "1.prems" obtain j where k: "k = Suc j" by (cases k) auto
    with False "1.prems" have j: "0 < j" by (cases j) auto
    from "1.prems" k have "n div 2 < 2 ^ j" by simp
    with "1.IH" [OF False this j] k False show ?thesis by (subst bin.simps) simp
  qed
qed

lemma bitval_snoc: "bitval (s @ [c]) = 2 * bitval s + (if c = CHR ''1'' then 1 else 0)"
  by (simp add: bitval_def)

lemma bitval_bin: "bitval (bin n) = n"
proof (induction n rule: bin.induct)
  case (1 n)
  show ?case
  proof (cases "n < 2")
    case True
    then show ?thesis by (subst bin.simps) (auto simp: bitval_def)
  next
    case False
    from False 1 have "bitval (bin (n div 2)) = n div 2" by simp
    moreover have "2 * (n div 2) + (if n mod 2 = 0 then 0 else 1) = n" by presburger
    ultimately show ?thesis using False by (subst bin.simps) (auto simp: bitval_snoc)
  qed
qed

lemma bitval_zeros: "bitval (replicate k (CHR ''0'') @ s) = bitval s"
proof (induction s rule: rev_induct)
  case Nil
  show ?case by (induction k) (simp_all add: bitval_def)
next
  case (snoc c s)
  have "bitval ((replicate k (CHR ''0'') @ s) @ [c]) = 2 * bitval (replicate k (CHR ''0'') @ s) + (if c = CHR ''1'' then 1 else 0)"
    by (rule bitval_snoc)
  with snoc show ?case by (simp add: bitval_snoc)
qed

lemma int2_bits: "s \<noteq> [] \<Longrightarrow> list_all is_bit s \<Longrightarrow> int2 s = Inr (bitval s)"
  by (simp add: int2_def)

lemma rjust_bin_bits: "list_all is_bit (rjust w (CHR ''0'') (bin n))"
proof -
  have "list_all is_bit (replicate (w - length (bin n)) (CHR ''0''))"
    by (simp add: list_all_iff)
  then show ?thesis by (simp add: rjust_def list_all_is_bit_bin)
qed

lemma length_rjust_bin: "n < 256 \<Longrightarrow> length (rjust 8 (CHR ''0'') (bin n)) = 8"
  using length_bin_le [of n 8] by (simp add: rjust_def)

lemma int2_rjust_bin: "n < 256 \<Longrightarrow> int2 (rjust 8 (CHR ''0'') (bin n)) = Inr n"
proof -
  assume n: "n < 256"
  have "rjust 8 (CHR ''0'') (bin n) \<noteq> []"
    using length_rjust_bin [OF n] by auto
  then have "int2 (rjust 8 (CHR ''0'') (bin n)) = Inr (bitval (rjust 8 (CHR ''0'') (bin n)))"
    by (rule int2_bits) (rule rjust_bin_bits)
  then show ?thesis by (simp add: rjust_def bitval_zeros bitval_bin)
qed

lemma unat_byte_less: "unat (b :: byte) < 256"
  using unsigned_less [of b] by simp

lemma length_unpack_bits: "length (unpack_bits data) = 8 * length data"
  by (induction data) (simp_all add: unpack_bits_def length_rjust_bin unat_byte_less)

lemma unpack_bits_Cons:
  "unpack_bits (b # data) = rjust 8 (CHR ''0'') (bin (unat b)) @ unpack_bits data"
  by (simp add: unpack_bits_def)

lemma slice_0_8_unpack:
  "slice (unpack_bits (b # data)) 0 8 = rjust 8 (CHR ''0'') (bin (unat b))"
  by (simp add: slice_def unpack_bits_Cons length_unpack_bits length_rjust_bin unat_byte_less Let_def)

lemma remove_padding_unpack:
  "remove_padding (unpack_bits (b # data)) =
     Inr (slice (unpack_bits (b # data)) 8 (- int (unat b)))"
  by (simp add: remove_padding_def slice_0_8_unpack int2_rjust_bin unat_byte_less)

lemma decompress_Cons:
  "decompress (b # data) st =
     Inr (decode_text (slice (unpack_bits (b # data)) 8 (- int (unat b))) st)"
  by (simp add: decompress_def remove_padding_unpack)

lemma decompress_Nil: "decompress [] st = Inl ValueError"
  by (simp add: decompress_def unpack_bits_def remove_padding_def slice_def int2_def)

section \<open>The heap keeps its nodes\<close>

text \<open>
  Sifting moves a hole through the list and fills it at the end, so the heap holds the
  same nodes, as a multiset, after \<open>heapify\<close>, and one more or one less after a push or
  a pop. The order of the heap decides the shape of the tree and nothing else below.
\<close>

lemma mset_hole_move:
  assumes "i < length h" "j < length h" "i \<noteq> j"
  shows "mset (h[i := h ! j, j := x]) = mset (h[i := x])"
proof -
  let ?g = "h[i := x]"
  have "mset (?g[i := ?g ! j, j := ?g ! i]) = mset ?g"
    using assms by (intro mset_swap) simp_all
  moreover have "?g[i := ?g ! j, j := ?g ! i] = h[i := h ! j, j := x]"
    using assms by simp
  ultimately show ?thesis by simp
qed

lemma mset_siftdown_loop:
  "pos < length heap \<Longrightarrow>
   mset (siftdown_loop heap startpos pos newitem) = mset (heap[pos := newitem])"
proof (induction heap startpos pos newitem rule: siftdown_loop.induct)
  case (1 heap startpos pos newitem)
  let ?pp = "(pos - 1) div 2"
  show ?case
  proof (cases "pos > startpos \<and> node_lt newitem (heap ! ?pp)")
    case True
    then have lt: "?pp < pos" by auto
    with "1.prems" have pp: "?pp < length (heap[pos := heap ! ?pp])" by simp
    have "mset (siftdown_loop (heap[pos := heap ! ?pp]) startpos ?pp newitem) =
          mset (heap[pos := heap ! ?pp, ?pp := newitem])"
      using True "1.IH" [OF _ refl refl _ pp] by simp
    also have "\<dots> = mset (heap[pos := newitem])"
      using lt "1.prems" by (intro mset_hole_move) simp_all
    finally show ?thesis
      using True by (subst siftdown_loop.simps) (simp add: Let_def)
  next
    case False
    then show ?thesis
      by (subst siftdown_loop.simps) (auto simp: Let_def)
  qed
qed

lemma mset_siftdown: "pos < length heap \<Longrightarrow> mset (siftdown heap startpos pos) = mset heap"
  by (simp add: siftdown_def mset_siftdown_loop)

lemma siftup_loop_hole:
  assumes "pos < length heap" "endpos = length heap"
    and "siftup_loop heap endpos pos = (heap', pos')"
  shows "pos' < length heap' \<and> mset (heap'[pos' := x]) = mset (heap[pos := x])"
  using assms
proof (induction heap endpos pos arbitrary: heap' pos' rule: siftup_loop.induct)
  case (1 heap endpos pos)
  let ?c = "2 * pos + 1"
  let ?c' = "if ?c + 1 < endpos \<and> \<not> node_lt (heap ! ?c) (heap ! (?c + 1)) then ?c + 1 else ?c"
  show ?case
  proof (cases "?c < endpos")
    case True
    then have c': "?c' < endpos" "pos \<noteq> ?c'" by auto
    have "siftup_loop heap endpos pos = siftup_loop (heap[pos := heap ! ?c']) endpos ?c'"
      using True by (subst siftup_loop.simps) (simp add: Let_def)
    with "1.prems" have step: "siftup_loop (heap[pos := heap ! ?c']) endpos ?c' = (heap', pos')"
      by simp
    have "pos' < length heap' \<and> mset (heap'[pos' := x]) = mset (heap[pos := heap ! ?c', ?c' := x])"
      using "1.IH" [OF refl True refl refl _ _ step] c' "1.prems"(2) by simp
    moreover have "mset (heap[pos := heap ! ?c', ?c' := x]) = mset (heap[pos := x])"
      using c' "1.prems" by (intro mset_hole_move) simp_all
    ultimately show ?thesis by simp
  next
    case False
    with "1.prems" have "heap' = heap" "pos' = pos"
      by (subst (asm) siftup_loop.simps, simp add: Let_def)+
    with "1.prems" show ?thesis by simp
  qed
qed

lemma mset_siftup: "pos < length heap \<Longrightarrow> mset (siftup heap pos) = mset heap"
proof -
  assume pos: "pos < length heap"
  obtain h p where hp: "siftup_loop heap (length heap) pos = (h, p)"
    by (cases "siftup_loop heap (length heap) pos")
  from siftup_loop_hole [OF pos refl hp, of "heap ! pos"]
  have p: "p < length h" and m: "mset (h[p := heap ! pos]) = mset heap"
    by simp_all
  from p have "mset (siftdown (h[p := heap ! pos]) pos p) = mset (h[p := heap ! pos])"
    by (intro mset_siftdown) simp
  with m show ?thesis
    by (simp add: siftup_def hp)
qed

lemma mset_heappush: "mset (heappush heap item) = add_mset item (mset heap)"
  by (simp add: heappush_def mset_siftdown)

lemma heappop_nonempty: "heap \<noteq> [] \<Longrightarrow> \<exists>x heap'. heappop heap = Inr (x, heap')"
  by (simp add: heappop_def Let_def)

lemma mset_heappop:
  assumes "heappop heap = Inr (x, heap')"
  shows "mset heap = add_mset x (mset heap')"
proof -
  from assms have ne: "heap \<noteq> []"
    by (auto simp: heappop_def)
  then have split: "heap = butlast heap @ [last heap]" by simp
  show ?thesis
  proof (cases "butlast heap = []")
    case True
    with assms ne have "x = last heap" "heap' = []"
      by (simp_all add: heappop_def Let_def)
    with True split show ?thesis by (metis append_Nil mset.simps(1) mset.simps(2))
  next
    case False
    let ?b = "butlast heap"
    from False have len: "0 < length ?b" unfolding length_greater_0_conv .
    from assms ne False have x: "x = ?b ! 0" and h: "heap' = siftup (?b[0 := last heap]) 0"
      by (simp_all add: heappop_def Let_def)
    have "mset heap' = mset (?b[0 := last heap])"
      unfolding h using len by (intro mset_siftup) simp
    also have "\<dots> = add_mset (last heap) (mset ?b - {#?b ! 0#})"
      using len by (rule mset_update)
    finally have "add_mset x (mset heap') = add_mset (last heap) (mset ?b)"
      using len x by (simp add: nth_mem_mset)
    also have "\<dots> = mset (?b @ [last heap])" by simp
    finally show ?thesis using split by simp
  qed
qed

lemma mset_fold_siftup:
  "\<forall>i\<in>set is. i < length heap \<Longrightarrow> mset (fold (\<lambda>i h. siftup h i) is heap) = mset heap"
  by (induction "is" arbitrary: heap) (simp_all add: mset_siftup)

lemma mset_heapify: "mset (heapify x) = mset x"
  unfolding heapify_def by (rule mset_fold_siftup) auto

section \<open>The tree and the assignments of codes\<close>

text \<open>
  \<open>code_list\<close> lists the assignments \<open>build_codes_helper\<close> makes below a node, in the
  order it makes them; \<open>assign\<close> is one assignment to both dictionaries. A node is
  well formed when it is a leaf with a symbol and no children, or a merged node with no
  symbol and two well-formed children: the nodes \<open>build_heap\<close> and \<open>merge_nodes\<close> make.
\<close>

fun code_list :: "'a node \<Rightarrow> string \<Rightarrow> ('a \<times> string) list" where
  "code_list (Node c f l r) current_code =
     (case c of None \<Rightarrow> [] | Some x \<Rightarrow> [(x, current_code)]) @
     (case l of None \<Rightarrow> [] | Some n \<Rightarrow> code_list n (current_code @ ''0'')) @
     (case r of None \<Rightarrow> [] | Some n \<Rightarrow> code_list n (current_code @ ''1''))"

definition assign :: "'a codec \<Rightarrow> 'a \<times> string \<Rightarrow> 'a codec" where
  "assign st = (\<lambda>(c, code). st\<lparr>codes := (codes st)(c \<mapsto> code),
                                 reverse_mapping := (reverse_mapping st)(code \<mapsto> c)\<rparr>)"

definition symbols :: "'a node \<Rightarrow> 'a list" where
  "symbols n = map fst (code_list n '''')"

fun well_formed :: "'a node \<Rightarrow> bool" where
  "well_formed (Node c f l r) =
     (case c of
        Some x \<Rightarrow> l = None \<and> r = None
      | None \<Rightarrow>
          (case l of
             None \<Rightarrow> False
           | Some a \<Rightarrow> (case r of None \<Rightarrow> False | Some b \<Rightarrow> well_formed a \<and> well_formed b)))"

lemma build_codes_helper_code_list:
  "build_codes_helper t cur st =
     foldl assign st (case t of None \<Rightarrow> [] | Some n \<Rightarrow> code_list n cur)"
proof (induction t cur st rule: build_codes_helper.induct)
  case (1 current_code st)
  show ?case by simp
next
  case (2 root current_code st)
  obtain c f l r where root: "root = Node c f l r" by (cases root)
  let ?st1 = "case c of None \<Rightarrow> st | Some x \<Rightarrow> assign st (x, current_code)"
  have st1: "(case char root of None \<Rightarrow> st
        | Some c \<Rightarrow> st\<lparr>codes := (codes st)(c \<mapsto> current_code),
                       reverse_mapping := (reverse_mapping st)(current_code \<mapsto> c)\<rparr>) = ?st1"
    by (simp add: root assign_def split: option.splits)
  have a: "build_codes_helper l (current_code @ ''0'') ?st1 =
       foldl assign ?st1 (case l of None \<Rightarrow> [] | Some n \<Rightarrow> code_list n (current_code @ ''0''))"
    using "2.IH"(1) [OF refl] by (simp add: st1 [symmetric]) (simp add: root)
  let ?st2 = "build_codes_helper l (current_code @ ''0'') ?st1"
  have b: "build_codes_helper r (current_code @ ''1'') ?st2 =
       foldl assign ?st2 (case r of None \<Rightarrow> [] | Some n \<Rightarrow> code_list n (current_code @ ''1''))"
    using "2.IH"(2) [OF refl refl] by (simp add: st1 [symmetric]) (simp add: root)
  have "build_codes_helper (Some root) current_code st = build_codes_helper r (current_code @ ''1'') ?st2"
    by (simp add: st1 [symmetric] Let_def) (simp add: root)
  also note b
  also note a
  finally show ?case
    by (simp add: root split: option.splits)
qed

lemma build_codes_code_list: "build_codes root st = foldl assign st (code_list root '''')"
  by (simp add: build_codes_def build_codes_helper_code_list)

lemma map_fst_code_list: "map fst (code_list n cur) = map fst (code_list n cur')"
proof (induction n cur arbitrary: cur' rule: code_list.induct)
  case (1 c f l r current_code)
  have a: "map fst (case l of None \<Rightarrow> [] | Some n \<Rightarrow> code_list n (current_code @ ''0'')) =
        map fst (case l of None \<Rightarrow> [] | Some n \<Rightarrow> code_list n (cur' @ ''0''))"
  proof (cases l)
    case None
    then show ?thesis by simp
  next
    case (Some n)
    from "1.IH"(1) [OF Some, of "cur' @ ''0''"] Some show ?thesis by simp
  qed
  have b: "map fst (case r of None \<Rightarrow> [] | Some n \<Rightarrow> code_list n (current_code @ ''1'')) =
        map fst (case r of None \<Rightarrow> [] | Some n \<Rightarrow> code_list n (cur' @ ''1''))"
  proof (cases r)
    case None
    then show ?thesis by simp
  next
    case (Some n)
    from "1.IH"(2) [OF Some, of "cur' @ ''1''"] Some show ?thesis by simp
  qed
  have "map fst (code_list (Node c f l r) current_code) =
        map fst (case c of None \<Rightarrow> [] | Some x \<Rightarrow> [(x, current_code)]) @
        map fst (case l of None \<Rightarrow> [] | Some n \<Rightarrow> code_list n (current_code @ ''0'')) @
        map fst (case r of None \<Rightarrow> [] | Some n \<Rightarrow> code_list n (current_code @ ''1''))"
    by simp
  also have "map fst (case c of None \<Rightarrow> [] | Some x \<Rightarrow> [(x, current_code)]) =
        map fst (case c of None \<Rightarrow> [] | Some x \<Rightarrow> [(x, cur')])"
    by (cases c) simp_all
  finally show ?case
    unfolding a b by simp
qed

lemma map_fst_code_list_symbols: "map fst (code_list n cur) = symbols n"
  unfolding symbols_def by (rule map_fst_code_list)

lemma symbols_leaf [simp]: "symbols (Node (Some x) f None None) = [x]"
  by (simp add: symbols_def)

lemma symbols_merged [simp]:
  "symbols (Node None f (Some a) (Some b)) = symbols a @ symbols b"
  by (simp add: symbols_def map_fst_code_list [of _ "''0''" "''''"] map_fst_code_list [of _ "''1''" "''''"])

lemma merge_nodes_result:
  assumes "heap \<noteq> []" "\<forall>n\<in>set heap. well_formed n"
  shows "\<exists>root. merge_nodes heap = Inr root \<and> well_formed root \<and>
           mset (symbols root) = (\<Sum>n\<in>#mset heap. mset (symbols n))"
  using assms
proof (induction heap rule: merge_nodes.induct)
  case (1 heap)
  show ?case
  proof (cases "length heap > 1")
    case True
    then have "heap \<noteq> []" by auto
    then obtain node1 heap1 where pop1: "heappop heap = Inr (node1, heap1)"
      using heappop_nonempty by blast
    from length_heappop [OF pop1] True have "heap1 \<noteq> []" by auto
    then obtain node2 heap2 where pop2: "heappop heap1 = Inr (node2, heap2)"
      using heappop_nonempty by blast
    let ?m = "Node None (freq node1 + freq node2) (Some node1) (Some node2)"
    let ?h = "heappush heap2 ?m"
    have m1: "mset heap = add_mset node1 (mset heap1)" by (rule mset_heappop [OF pop1])
    have m2: "mset heap1 = add_mset node2 (mset heap2)" by (rule mset_heappop [OF pop2])
    have m3: "mset ?h = add_mset ?m (mset heap2)" by (rule mset_heappush)
    have sets: "set heap = insert node1 (insert node2 (set heap2))"
      using m1 m2 by (metis set_mset_add_mset_insert set_mset_mset)
    have seth: "set ?h = insert ?m (set heap2)"
      using m3 by (metis set_mset_add_mset_insert set_mset_mset)
    have wf: "\<forall>n\<in>set ?h. well_formed n"
      using "1.prems"(2) sets seth by auto
    have ne: "?h \<noteq> []" using seth by auto
    from "1.IH" [OF True pop1 refl pop2 refl ne wf]
    obtain root where root: "merge_nodes ?h = Inr root" "well_formed root"
      "mset (symbols root) = (\<Sum>n\<in>#mset ?h. mset (symbols n))"
      by blast
    have "merge_nodes heap = merge_nodes ?h"
      using True pop1 pop2 by (subst merge_nodes.simps) simp
    moreover have "(\<Sum>n\<in>#mset ?h. mset (symbols n)) = (\<Sum>n\<in>#mset heap. mset (symbols n))"
      by (simp add: m1 m2 m3)
    ultimately show ?thesis using root by simp
  next
    case False
    with "1.prems"(1) obtain root where "heap = [root]"
      by (cases heap) auto
    with "1.prems"(2) show ?thesis
      by (subst merge_nodes.simps) simp
  qed
qed


lemma build_frequency_dict_keys_aux:
  fixes d :: "('a \<times> int) list"
  assumes "distinct (map fst d)"
  shows "distinct (map fst (foldl (\<lambda>d c. AList.update c ((case map_of d c of None \<Rightarrow> 0 | Some n \<Rightarrow> n) + 1) d) d text)) \<and>
         fst ` set (foldl (\<lambda>d c. AList.update c ((case map_of d c of None \<Rightarrow> 0 | Some n \<Rightarrow> n) + 1) d) d text) =
           fst ` set d \<union> set text"
  using assms
proof (induction "text" arbitrary: d)
  case Nil
  then show ?case by simp
next
  case (Cons c rest)
  let ?d = "AList.update c ((case map_of d c of None \<Rightarrow> 0 | Some n \<Rightarrow> n) + 1) d"
  have "distinct (map fst ?d)"
    using Cons.prems by (rule distinct_update)
  from Cons.IH [OF this] show ?case
    by (simp add: dom_update)
qed

lemma build_frequency_dict_keys:
  "distinct (map fst (build_frequency_dict text))"
  "set (map fst (build_frequency_dict text)) = set text"
  using build_frequency_dict_keys_aux [of "[]" "text"]
  by (simp_all add: build_frequency_dict_def)

lemma sum_symbols_leaves:
  "(\<Sum>n\<in>#mset (map (\<lambda>(c, f). Node (Some c) f None None) frequency). mset (symbols n)) =
     mset (map fst frequency)"
  by (induction frequency) (simp_all add: case_prod_unfold)

lemma build_heap_nodes:
  "mset (build_heap frequency) = mset (map (\<lambda>(c, f). Node (Some c) f None None) frequency)"
  by (simp add: build_heap_def mset_heapify)

lemma build_heap_well_formed: "\<forall>n\<in>set (build_heap frequency). well_formed n"
proof -
  have "set (build_heap frequency) = set (map (\<lambda>(c, f). Node (Some c) f None None) frequency)"
    using build_heap_nodes [of frequency] by (metis set_mset_mset)
  then show ?thesis by auto
qed

lemma build_heap_nonempty: "frequency \<noteq> [] \<Longrightarrow> build_heap frequency \<noteq> []"
  using build_heap_nodes [of frequency] by (metis mset_zero_iff map_is_Nil_conv)

lemma merge_nodes_build_heap:
  assumes "text \<noteq> []"
  shows "\<exists>root. merge_nodes (build_heap (build_frequency_dict text)) = Inr root \<and>
           well_formed root \<and> distinct (symbols root) \<and> set (symbols root) = set text"
proof -
  let ?fr = "build_frequency_dict text"
  from assms build_frequency_dict_keys(2) [of "text"] have "?fr \<noteq> []" by auto
  then have "build_heap ?fr \<noteq> []" by (rule build_heap_nonempty)
  from merge_nodes_result [OF this build_heap_well_formed]
  obtain root where root: "merge_nodes (build_heap ?fr) = Inr root" "well_formed root"
    "mset (symbols root) = (\<Sum>n\<in>#mset (build_heap ?fr). mset (symbols n))"
    by blast
  from root(3) have m: "mset (symbols root) = mset (map fst ?fr)"
    unfolding build_heap_nodes sum_symbols_leaves .
  then have "distinct (symbols root)"
    using build_frequency_dict_keys(1) [of "text"] by (metis mset_eq_imp_distinct_iff)
  moreover from m have "set (symbols root) = set text"
    using build_frequency_dict_keys(2) [of "text"] by (metis mset_eq_setD)
  ultimately show ?thesis using root by blast
qed

section \<open>Codes of a well-formed tree\<close>

text \<open>
  Two codes are incomparable when neither is a prefix of the other. The codes below a
  well-formed node extend the path to the node by binary digits and are pairwise
  incomparable, since the paths into the two children part at their first digit.
\<close>

definition incomparable :: "string \<Rightarrow> string \<Rightarrow> bool" where
  "incomparable p q = (\<not> prefix p q \<and> \<not> prefix q p)"

lemma code_list_extends:
  "(x, p) \<in> set (code_list n cur) \<Longrightarrow> \<exists>s. p = cur @ s \<and> list_all is_bit s"
proof (induction n cur arbitrary: x p rule: code_list.induct)
  case (1 c f l r current_code)
  from "1.prems" consider
      (here) "c = Some x" "p = current_code"
    | (left) a where "l = Some a" "(x, p) \<in> set (code_list a (current_code @ ''0''))"
    | (right) b where "r = Some b" "(x, p) \<in> set (code_list b (current_code @ ''1''))"
    by (auto split: option.splits)
  then show ?case
  proof cases
    case here
    then show ?thesis by simp
  next
    case left
    from "1.IH"(1) [OF left] obtain s where "p = (current_code @ ''0'') @ s" "list_all is_bit s"
      by blast
    then have "p = current_code @ (''0'' @ s) \<and> list_all is_bit (''0'' @ s)" by simp
    then show ?thesis by blast
  next
    case right
    from "1.IH"(2) [OF right] obtain s where "p = (current_code @ ''1'') @ s" "list_all is_bit s"
      by blast
    then have "p = current_code @ (''1'' @ s) \<and> list_all is_bit (''1'' @ s)" by simp
    then show ?thesis by blast
  qed
qed

lemma well_formed_cases:
  assumes "well_formed n"
  obtains (leaf) x f where "n = Node (Some x) f None None"
    | (merged) f a b where "n = Node None f (Some a) (Some b)" "well_formed a" "well_formed b"
  using assms by (cases n) (auto split: option.splits)

lemma code_list_prefix_free:
  "well_formed n \<Longrightarrow> sorted_wrt (\<lambda>a b. incomparable (snd a) (snd b)) (code_list n cur)"
proof (induction n cur rule: code_list.induct)
  case (1 c f l r current_code)
  from "1.prems" show ?case
  proof (cases rule: well_formed_cases)
    case (leaf x f')
    then show ?thesis by simp
  next
    case (merged f' a b)
    then have l: "l = Some a" and r: "r = Some b" and c: "c = None" by simp_all
    have A: "sorted_wrt (\<lambda>a b. incomparable (snd a) (snd b)) (code_list a (current_code @ ''0''))"
      using "1.IH"(1) [OF l] merged by simp
    have B: "sorted_wrt (\<lambda>a b. incomparable (snd a) (snd b)) (code_list b (current_code @ ''1''))"
      using "1.IH"(2) [OF r] merged by simp
    have cross: "incomparable (snd u) (snd v)"
      if "u \<in> set (code_list a (current_code @ ''0''))" "v \<in> set (code_list b (current_code @ ''1''))"
      for u v
    proof -
      from that(1) code_list_extends [of "fst u" "snd u" a "current_code @ ''0''"]
      obtain s where s: "snd u = (current_code @ ''0'') @ s" by auto
      from that(2) code_list_extends [of "fst v" "snd v" b "current_code @ ''1''"]
      obtain t where t: "snd v = (current_code @ ''1'') @ t" by auto
      show ?thesis by (simp add: incomparable_def s t)
    qed
    show ?thesis
      using A B cross by (simp add: l r c sorted_wrt_append)
  qed
qed

lemma sorted_wrt_pairs:
  assumes "sorted_wrt R xs" "\<And>a b. R a b \<Longrightarrow> R b a" "u \<in> set xs" "v \<in> set xs" "u \<noteq> v"
  shows "R u v"
  using assms(1,3,4,5)
proof (induction xs)
  case Nil
  then show ?case by simp
next
  case (Cons x xs)
  then show ?case using assms(2) by auto
qed

lemma incomparable_sym: "incomparable p q \<Longrightarrow> incomparable q p"
  by (simp add: incomparable_def)

lemma code_list_distinct_codes:
  assumes "well_formed n"
  shows "distinct (map snd (code_list n cur))"
proof -
  have "sorted_wrt (\<lambda>a b. incomparable (snd a) (snd b)) xs \<Longrightarrow> distinct (map snd xs)"
    for xs :: "('a \<times> string) list"
    by (induction xs) (auto simp: incomparable_def)
  then show ?thesis using code_list_prefix_free [OF assms] by blast
qed

lemma code_list_incomparable:
  assumes "well_formed n" "(x, p) \<in> set (code_list n cur)" "(y, q) \<in> set (code_list n cur)"
    and "(x, p) \<noteq> (y, q)"
  shows "incomparable p q"
  using sorted_wrt_pairs [OF code_list_prefix_free [OF assms(1), of cur] _ assms(2,3,4)]
  by (simp add: incomparable_sym)

lemma codes_foldl_assign:
  "codes (foldl assign st L) k =
     (case map_of (rev L) k of None \<Rightarrow> codes st k | Some p \<Rightarrow> Some p)"
  by (induction L rule: rev_induct) (auto simp: assign_def split: option.splits)

lemma reverse_mapping_foldl_assign:
  "reverse_mapping (foldl assign st L) p =
     (case map_of (rev (map prod.swap L)) p of None \<Rightarrow> reverse_mapping st p | Some c \<Rightarrow> Some c)"
  by (induction L rule: rev_induct) (auto simp: assign_def split: option.splits)

lemma codes_build_codes_member:
  assumes "distinct (symbols root)" "(x, p) \<in> set (code_list root '''')"
  shows "codes (build_codes root st) x = Some p"
proof -
  have "distinct (map fst (rev (code_list root '''')))"
    using assms(1) by (simp add: rev_map [symmetric] map_fst_code_list_symbols)
  then have "map_of (rev (code_list root '''')) x = Some p"
    using assms(2) by simp
  then show ?thesis
    by (simp add: build_codes_code_list codes_foldl_assign)
qed

lemma codes_build_codes_other:
  assumes "x \<notin> set (symbols root)"
  shows "codes (build_codes root st) x = codes st x"
proof -
  have "x \<notin> fst ` set (rev (code_list root ''''))"
    using assms by (simp add: map_fst_code_list_symbols [of root "''''", symmetric])
  then have "map_of (rev (code_list root '''')) x = None"
    by (simp add: map_of_eq_None_iff)
  then show ?thesis
    by (simp add: build_codes_code_list codes_foldl_assign)
qed

lemma reverse_mapping_build_codes_member:
  assumes "well_formed root" "(x, p) \<in> set (code_list root '''')"
  shows "reverse_mapping (build_codes root st) p = Some x"
proof -
  let ?S = "rev (map prod.swap (code_list root ''''))"
  have "map fst ?S = rev (map snd (code_list root ''''))"
    by (simp add: rev_map)
  then have "distinct (map fst ?S)"
    using code_list_distinct_codes [OF assms(1), of "''''"] by simp
  moreover have "(p, x) \<in> set ?S"
    using assms(2) by force
  ultimately have "map_of ?S p = Some x" by simp
  then show ?thesis
    by (simp add: build_codes_code_list reverse_mapping_foldl_assign)
qed

lemma reverse_mapping_build_codes_other:
  assumes "p \<notin> snd ` set (code_list root '''')"
  shows "reverse_mapping (build_codes root st) p = reverse_mapping st p"
proof -
  let ?S = "rev (map prod.swap (code_list root ''''))"
  have "fst ` set ?S = snd ` set (code_list root '''')"
    by force
  with assms have "map_of ?S p = None"
    by (simp add: map_of_eq_None_iff)
  then show ?thesis
    by (simp add: build_codes_code_list reverse_mapping_foldl_assign)
qed

lemma symbol_has_code:
  assumes "x \<in> set (symbols root)"
  shows "\<exists>p. (x, p) \<in> set (code_list root '''')"
  using assms unfolding symbols_def by auto

lemma get_encoded_text_concat:
  assumes "\<forall>c\<in>set ts. \<exists>p. codes st c = Some p"
  shows "get_encoded_text ts st = Inr (concat (map (\<lambda>c. the (codes st c)) ts))"
  using assms by (induction ts) auto

lemma get_encoded_text_bits:
  assumes "get_encoded_text ts st = Inr enc"
    and "\<forall>c\<in>set ts. \<forall>p. codes st c = Some p \<longrightarrow> list_all is_bit p"
  shows "list_all is_bit enc"
  using assms by (induction ts arbitrary: enc) (auto split: option.splits sum.splits)

lemma decode_loop_code:
  assumes "rm (cur @ s) = Some x" "s \<noteq> []"
    and "\<And>q. strict_prefix q (cur @ s) \<Longrightarrow> q \<noteq> [] \<Longrightarrow> rm q = None"
  shows "decode_loop rm (s @ rest) cur acc = decode_loop rm rest [] (acc @ [x])"
  using assms
proof (induction s arbitrary: cur)
  case Nil
  then show ?case by simp
next
  case (Cons b s)
  show ?case
  proof (cases "s = []")
    case True
    with Cons.prems show ?thesis by simp
  next
    case False
    have "strict_prefix (cur @ [b]) (cur @ b # s)"
      using False by (simp add: strict_prefix_def)
    then have none: "rm (cur @ [b]) = None"
      using Cons.prems(3) by simp
    have "decode_loop rm (s @ rest) (cur @ [b]) acc = decode_loop rm rest [] (acc @ [x])"
      using Cons.IH [of "cur @ [b]"] Cons.prems False by simp
    with none show ?thesis by simp
  qed
qed

lemma decode_loop_concat:
  assumes "\<And>c. c \<in> set ts \<Longrightarrow> enc c \<noteq> [] \<and> rm (enc c) = Some c \<and>
             (\<forall>q. strict_prefix q (enc c) \<longrightarrow> q \<noteq> [] \<longrightarrow> rm q = None)"
  shows "decode_loop rm (concat (map enc ts) @ rest) [] acc = decode_loop rm rest [] (acc @ ts)"
  using assms
proof (induction ts arbitrary: acc)
  case Nil
  then show ?case by simp
next
  case (Cons c ts)
  have c: "enc c \<noteq> []" "rm (enc c) = Some c"
    "\<And>q. strict_prefix q (enc c) \<Longrightarrow> q \<noteq> [] \<Longrightarrow> rm q = None"
    using Cons.prems [of c] by simp_all
  have "decode_loop rm (enc c @ (concat (map enc ts) @ rest)) [] acc =
        decode_loop rm (concat (map enc ts) @ rest) [] (acc @ [c])"
    using decode_loop_code [of rm "[]" "enc c" c "concat (map enc ts) @ rest" acc] c by simp
  also have "\<dots> = decode_loop rm rest [] ((acc @ [c]) @ ts)"
    using Cons.prems by (intro Cons.IH) auto
  finally show ?case by simp
qed

section \<open>Packing and unpacking\<close>

text \<open>
  Eight binary digits packed into a byte and unpacked again are the same digits, so the
  bytes \<open>compress\<close> returns unpack to the padded bit string, and \<open>remove_padding\<close>
  gives the encoded text back.
\<close>

lemma bitval_less: "bitval s < 2 ^ length s"
proof (induction s rule: rev_induct)
  case Nil
  show ?case by (simp add: bitval_def)
next
  case (snoc c s)
  then show ?case by (simp add: bitval_snoc)
qed

lemma bin_double:
  "0 < v \<Longrightarrow> bin (2 * v + (if c = CHR ''1'' then 1 else 0)) =
     bin v @ [if c = CHR ''1'' then CHR ''1'' else CHR ''0'']"
  by (subst bin.simps) auto

lemma rjust_bin_bitval:
  "list_all is_bit s \<Longrightarrow> s \<noteq> [] \<Longrightarrow> rjust (length s) (CHR ''0'') (bin (bitval s)) = s"
proof (induction s rule: rev_induct)
  case Nil
  then show ?case by simp
next
  case (snoc c s)
  from snoc.prems have c: "(if c = CHR ''1'' then CHR ''1'' else CHR ''0'') = c"
    by (auto simp: is_bit_def)
  show ?case
  proof (cases "s = []")
    case True
    then show ?thesis using c
      by (subst bin.simps) (auto simp: bitval_def rjust_def)
  next
    case False
    with snoc have IH: "rjust (length s) (CHR ''0'') (bin (bitval s)) = s" by simp
    show ?thesis
    proof (cases "bitval s = 0")
      case True
      with IH have "replicate (length s - 1) (CHR ''0'') @ ''0'' = s"
        by (simp add: rjust_def bin.simps)
      then have "replicate (length s) (CHR ''0'') = s"
        using False by (metis One_nat_def Suc_pred length_greater_0_conv replicate_Suc replicate_append_same)
      moreover have "bin (bitval (s @ [c])) = [c]"
        using True c by (subst bin.simps) (auto simp: bitval_snoc)
      ultimately show ?thesis by (simp add: rjust_def)
    next
      case False
      then have "bin (bitval (s @ [c])) = bin (bitval s) @ [c]"
        using bin_double [of "bitval s" c] c by (simp add: bitval_snoc)
      moreover have "length (bin (bitval s)) \<le> length s"
        using length_bin_le [OF bitval_less [of s]] \<open>s \<noteq> []\<close> by simp
      ultimately show ?thesis using IH by (simp add: rjust_def Suc_diff_le)
    qed
  qed
qed

lemma unat_of_nat_byte: "v < 256 \<Longrightarrow> unat (of_nat v :: byte) = v"
  by (simp add: unat_of_nat)

lemma pack_bytes_unpack:
  "list_all is_bit s \<Longrightarrow> 8 dvd length s \<Longrightarrow> \<exists>b. pack_bytes s = Inr b \<and> unpack_bits b = s"
proof (induction s rule: pack_bytes.induct)
  case 1
  show ?case by (simp add: unpack_bits_def)
next
  case (2 c cs)
  let ?s = "c # cs"
  let ?v = "bitval (take 8 ?s)"
  from "2.prems"(2) have len: "8 \<le> length ?s"
    by (intro dvd_imp_le) simp_all
  then have l8: "length (take 8 ?s) = 8" by simp
  have bits8: "list_all is_bit (take 8 ?s)"
    using "2.prems"(1) by (metis append_take_drop_id list_all_append)
  have ne: "take 8 ?s \<noteq> []" by simp
  have v: "int2 (take 8 ?s) = Inr ?v"
    using ne bits8 by (rule int2_bits)
  have vlt: "?v < 256"
    using bitval_less [of "take 8 ?s"] l8 by simp
  have "list_all is_bit (drop 8 ?s)"
    using "2.prems"(1) by (metis append_take_drop_id list_all_append)
  moreover have "8 dvd length (drop 8 ?s)"
  proof -
    have "length (drop 8 ?s) = length ?s - 8" by simp
    moreover have "8 dvd length ?s - 8"
      using "2.prems"(2) by (rule dvd_diff_nat) simp
    ultimately show ?thesis by (simp only:)
  qed
  ultimately obtain b where b: "pack_bytes (drop 8 ?s) = Inr b" "unpack_bits b = drop 8 ?s"
    using "2.IH" [OF v vlt] by blast
  have "rjust 8 (CHR ''0'') (bin ?v) = take 8 ?s"
    using rjust_bin_bitval [OF bits8 ne] l8 by simp
  then have "unpack_bits (of_nat ?v # b) = take 8 ?s @ drop 8 ?s"
    using b(2) vlt by (simp add: unpack_bits_Cons unat_of_nat_byte)
  moreover have "pack_bytes ?s = Inr (of_nat ?v # b)"
    using v vlt b(1) by (simp del: take_Suc_Cons drop_Suc_Cons)
  ultimately show ?case by (simp del: take_Suc_Cons drop_Suc_Cons pack_bytes.simps)
qed

lemma extra_padding_range:
  "1 \<le> 8 - n mod 8" "8 - n mod 8 \<le> (8::nat)" "8 dvd n + (8 - n mod 8)"
proof -
  show "1 \<le> 8 - n mod 8" by presburger
  show "8 - n mod 8 \<le> 8" by simp
  show "8 dvd n + (8 - n mod 8)" by presburger
qed

lemma pad_encoded_text_eq:
  "pad_encoded_text enc =
     rjust 8 (CHR ''0'') (bin (8 - length enc mod 8)) @ enc @
     replicate (8 - length enc mod 8) (CHR ''0'')"
  by (simp add: pad_encoded_text_def Let_def)

lemma pad_encoded_text_bits:
  "list_all is_bit enc \<Longrightarrow> list_all is_bit (pad_encoded_text enc)"
proof -
  assume "list_all is_bit enc"
  moreover have "list_all is_bit (replicate (8 - length enc mod 8) (CHR ''0''))"
    by (simp add: list_all_iff)
  ultimately show ?thesis
    by (simp add: pad_encoded_text_eq rjust_bin_bits)
qed

lemma length_pad_encoded_text:
  "length (pad_encoded_text enc) = 8 + length enc + (8 - length enc mod 8)"
  by (simp add: pad_encoded_text_eq length_rjust_bin)

lemma remove_padding_pad_encoded_text:
  "remove_padding (pad_encoded_text enc) = Inr enc"
proof -
  let ?e = "8 - length enc mod 8"
  let ?h = "rjust 8 (CHR ''0'') (bin ?e)"
  have h8: "length ?h = 8" by (simp add: length_rjust_bin)
  have e: "1 \<le> ?e" "?e \<le> 8" by (rule extra_padding_range)+
  have "slice (pad_encoded_text enc) 0 8 = ?h"
    by (simp add: slice_def pad_encoded_text_eq h8 Let_def)
  moreover have "int2 ?h = Inr ?e"
    by (rule int2_rjust_bin) simp
  moreover have "slice (pad_encoded_text enc) 8 (- int ?e) = enc"
    using e by (simp add: slice_def Let_def length_pad_encoded_text)
      (simp add: pad_encoded_text_eq h8)
  ultimately show ?thesis
    by (simp add: remove_padding_def)
qed

lemma pack_padded:
  assumes "list_all is_bit enc"
  shows "\<exists>hd_byte payload. pack_bytes (pad_encoded_text enc) = Inr (hd_byte # payload) \<and>
           unat hd_byte = 8 - length enc mod 8 \<and>
           unpack_bits (hd_byte # payload) = pad_encoded_text enc"
proof -
  let ?e = "8 - length enc mod 8"
  let ?h = "rjust 8 (CHR ''0'') (bin ?e)"
  have "8 dvd length (pad_encoded_text enc)"
    unfolding length_pad_encoded_text by presburger
  with pad_encoded_text_bits [OF assms]
  obtain b where b: "pack_bytes (pad_encoded_text enc) = Inr b" "unpack_bits b = pad_encoded_text enc"
    using pack_bytes_unpack by blast
  from b(2) have "b \<noteq> []"
    by (auto simp: unpack_bits_def pad_encoded_text_eq rjust_def)
  then obtain h payload where hp: "b = h # payload" by (cases b) auto
  have "take 8 (unpack_bits b) = take 8 (pad_encoded_text enc)"
    using b(2) by simp
  then have "rjust 8 (CHR ''0'') (bin (unat h)) = ?h"
    by (simp add: hp unpack_bits_Cons pad_encoded_text_eq length_rjust_bin unat_byte_less)
  then have "bitval (rjust 8 (CHR ''0'') (bin (unat h))) = bitval ?h" by simp
  then have "unat h = ?e"
    by (simp add: rjust_def bitval_zeros bitval_bin)
  with b hp show ?thesis by simp
qed

section \<open>What compress computes\<close>

lemma code_list_bits:
  "(x, p) \<in> set (code_list root '''') \<Longrightarrow> list_all is_bit p"
  using code_list_extends [of x p root "''''"] by auto

lemma codes_build_codes_symbol:
  assumes "distinct (symbols root)" "x \<in> set (symbols root)"
  shows "codes (build_codes root st) x = map_of (code_list root '''') x"
proof -
  from symbol_has_code [OF assms(2)] obtain p where p: "(x, p) \<in> set (code_list root '''')"
    by blast
  have "distinct (map fst (code_list root ''''))"
    using assms(1) by (simp add: map_fst_code_list_symbols)
  with p have "map_of (code_list root '''') x = Some p" by simp
  with codes_build_codes_member [OF assms(1) p] show ?thesis by simp
qed

lemma code_in_code_list:
  assumes "distinct (symbols root)" "x \<in> set (symbols root)"
  shows "(x, the (codes (build_codes root st) x)) \<in> set (code_list root '''')"
proof -
  from symbol_has_code [OF assms(2)] obtain p where p: "(x, p) \<in> set (code_list root '''')"
    by blast
  with codes_build_codes_member [OF assms(1) p] show ?thesis by simp
qed

text \<open>What \<open>compress\<close> does on a non-empty text, whatever the codec held before.\<close>

lemma compress_nonempty:
  assumes "ts \<noteq> []"
  obtains root enc h payload where
    "merge_nodes (build_heap (build_frequency_dict ts)) = Inr root"
    "well_formed root" "distinct (symbols root)" "set (symbols root) = set ts"
    "enc = concat (map (\<lambda>c. the (map_of (code_list root '''') c)) ts)"
    "list_all is_bit enc"
    "\<And>st. get_encoded_text ts (build_codes root st) = Inr enc"
    "\<And>st. compress ts st = (Inr (h # payload, root), build_codes root st)"
    "unat h = 8 - length enc mod 8"
    "unpack_bits (h # payload) = pad_encoded_text enc"
proof -
  from merge_nodes_build_heap [OF assms] obtain root where
    root: "merge_nodes (build_heap (build_frequency_dict ts)) = Inr root"
      "well_formed root" "distinct (symbols root)" "set (symbols root) = set ts"
    by blast
  define enc where "enc = concat (map (\<lambda>c. the (map_of (code_list root '''') c)) ts)"
  have get: "get_encoded_text ts (build_codes root st) = Inr enc" for st
  proof -
    have "\<forall>c\<in>set ts. \<exists>p. codes (build_codes root st) c = Some p"
      using root(3,4) codes_build_codes_member symbol_has_code by metis
    then have "get_encoded_text ts (build_codes root st) =
        Inr (concat (map (\<lambda>c. the (codes (build_codes root st) c)) ts))"
      by (rule get_encoded_text_concat)
    moreover have "map (\<lambda>c. the (codes (build_codes root st) c)) ts =
        map (\<lambda>c. the (map_of (code_list root '''') c)) ts"
      using root(3,4) by (simp add: codes_build_codes_symbol)
    ultimately show ?thesis by (simp add: enc_def)
  qed
  have bits: "list_all is_bit enc"
  proof (rule get_encoded_text_bits [OF get [of HuffmanCoding_init]], intro ballI allI impI)
    fix c p
    assume "c \<in> set ts" "codes (build_codes root HuffmanCoding_init) c = Some p"
    with code_in_code_list [OF root(3), of c HuffmanCoding_init] root(4)
    have "(c, p) \<in> set (code_list root '''')" by simp
    then show "list_all is_bit p" by (rule code_list_bits)
  qed
  from pack_padded [OF bits] obtain h payload where
    pk: "pack_bytes (pad_encoded_text enc) = Inr (h # payload)"
      "unat h = 8 - length enc mod 8"
      "unpack_bits (h # payload) = pad_encoded_text enc"
    by blast
  have "compress ts st = (Inr (h # payload, root), build_codes root st)" for st
    by (simp add: compress_def Let_def root(1) get pk(1))
  then show ?thesis
    using that [OF root enc_def bits get _ pk(2,3)] by blast
qed

text \<open>A merged root gives every symbol a code of at least one digit.\<close>

lemma merged_codes_nonempty:
  assumes "(x, p) \<in> set (code_list (Node None f (Some a) (Some b)) '''')"
  shows "p \<noteq> []"
proof -
  from assms consider "(x, p) \<in> set (code_list a ''0'')" | "(x, p) \<in> set (code_list b ''1'')"
    by auto
  then show ?thesis
    using code_list_extends [of x p a "''0''"] code_list_extends [of x p b "''1''"]
    by cases auto
qed

text \<open>
  Decoding what was encoded, when no entry left from an earlier call is a non-empty
  proper prefix of a new code (none is on a new codec).
\<close>

lemma decode_encoded_merged:
  assumes root: "root = Node None f (Some a) (Some b)" "well_formed root" "distinct (symbols root)"
    and ts: "set ts \<subseteq> set (symbols root)"
    and stale: "\<And>x p q. (x, p) \<in> set (code_list root '''') \<Longrightarrow> strict_prefix q p \<Longrightarrow> q \<noteq> [] \<Longrightarrow>
                  reverse_mapping st q = None"
  shows "decode_loop (reverse_mapping (build_codes root st))
           (concat (map (\<lambda>c. the (map_of (code_list root '''') c)) ts)) [] [] = ([], ts)"
proof -
  let ?L = "code_list root ''''"
  let ?rm = "reverse_mapping (build_codes root st)"
  let ?enc = "\<lambda>c. the (map_of ?L c)"
  have dist: "distinct (map fst ?L)"
    using root(3) by (simp add: map_fst_code_list_symbols)
  have each: "?enc c \<noteq> [] \<and> ?rm (?enc c) = Some c \<and>
      (\<forall>q. strict_prefix q (?enc c) \<longrightarrow> q \<noteq> [] \<longrightarrow> ?rm q = None)" if "c \<in> set ts" for c
  proof -
    from that ts symbol_has_code [of c root] obtain p where p: "(c, p) \<in> set ?L" by blast
    with dist have enc: "?enc c = p" by simp
    have "p \<noteq> []" using p unfolding root(1) by (rule merged_codes_nonempty)
    moreover have "?rm p = Some c"
      by (rule reverse_mapping_build_codes_member [OF root(2) p])
    moreover have "?rm q = None" if q: "strict_prefix q p" "q \<noteq> []" for q
    proof -
      have "q \<notin> snd ` set ?L"
      proof
        assume "q \<in> snd ` set ?L"
        then obtain y where y: "(y, q) \<in> set ?L" by auto
        from q(1) have "(y, q) \<noteq> (c, p)" by auto
        from code_list_incomparable [OF root(2) y p this] q(1) show False
          by (simp add: incomparable_def strict_prefix_def)
      qed
      then have "?rm q = reverse_mapping st q"
        by (rule reverse_mapping_build_codes_other)
      with stale [OF p q] show ?thesis by simp
    qed
    ultimately show ?thesis using enc by simp
  qed
  have "decode_loop ?rm (concat (map ?enc ts) @ []) [] [] = decode_loop ?rm [] [] ([] @ ts)"
    by (rule decode_loop_concat) (use each in blast)
  then show ?thesis by simp
qed

lemma encoded_leaf_empty:
  assumes "root = Node (Some x) f None None" "set ts \<subseteq> set (symbols root)"
  shows "concat (map (\<lambda>c. the (map_of (code_list root '''') c)) ts) = []"
proof -
  have "the (map_of (code_list root '''') c) = []" if "c \<in> set ts" for c
    using that assms by auto
  then show ?thesis by simp
qed

section \<open>Decoding what was encoded\<close>

text \<open>
  When the inverse table is empty before the call, as on a new codec, the scan of the
  encoded text ends with no candidate left. With two or more distinct symbols the root is
  a merged node and the scan returns the input; with one distinct symbol the root is the
  leaf itself, its code is the empty string, the encoded text is empty and \<open>decompress\<close>
  returns the empty string.
\<close>

lemma well_formed_symbols_nonempty: "well_formed n \<Longrightarrow> symbols n \<noteq> []"
proof (induction n rule: well_formed.induct)
  case (1 c f l r)
  from "1.prems" show ?case
  proof (cases rule: well_formed_cases)
    case (leaf x f')
    then show ?thesis by simp
  next
    case (merged f' a b)
    with "1.IH"(1) [of a b] show ?thesis by simp
  qed
qed

lemma two_symbols_merged:
  assumes "well_formed root" "a \<in> set (symbols root)" "b \<in> set (symbols root)" "a \<noteq> b"
  obtains f l r where "root = Node None f (Some l) (Some r)"
  using assms by (cases rule: well_formed_cases) auto

lemma one_symbol_leaf:
  assumes "well_formed root" "distinct (symbols root)" "set (symbols root) = {x}"
  obtains f where "root = Node (Some x) f None None"
  using assms(1)
proof (cases rule: well_formed_cases)
  case (leaf y f)
  with assms(3) have "y = x" by simp
  with leaf that show ?thesis by blast
next
  case (merged f l r)
  from merged(2,3) obtain u v where "u \<in> set (symbols l)" "v \<in> set (symbols r)"
    using well_formed_symbols_nonempty by (meson last_in_set)
  moreover from this assms(3) merged(1) have "u = x" "v = x" by auto
  ultimately have "\<not> distinct (symbols root)"
    using merged(1) by auto
  with assms(2) show ?thesis by simp
qed

lemma decode_leftover_empty:
  assumes "input \<noteq> []" "reverse_mapping st = Map.empty"
    and "compress input st = (Inr (buf, root), st')"
    and "get_encoded_text input st' = Inr enc"
  shows "fst (decode_loop (reverse_mapping st') enc [] []) = []"
proof -
  from compress_nonempty [OF assms(1)] obtain root' enc' h payload where
    r: "well_formed root'" "distinct (symbols root')" "set (symbols root') = set input"
      "enc' = concat (map (\<lambda>c. the (map_of (code_list root' '''') c)) input)"
      "\<And>st. get_encoded_text input (build_codes root' st) = Inr enc'"
      "\<And>st. compress input st = (Inr (h # payload, root'), build_codes root' st)"
    by metis
  from r(6) [of st] assms(3)
  have eq: "root' = root" "st' = build_codes root st" by simp_all
  with r(5) [of st] assms(4) have enc: "enc' = enc" by simp
  from r(1) show ?thesis
  proof (cases rule: well_formed_cases)
    case (leaf x f)
    then have "enc' = []"
      unfolding r(4) using r(3) by (intro encoded_leaf_empty [of _ x f]) simp_all
    with enc show ?thesis by simp
  next
    case (merged f a b)
    have "decode_loop (reverse_mapping (build_codes root' st)) enc' [] [] = ([], input)"
      unfolding r(4)
      by (rule decode_encoded_merged [OF merged(1) r(1,2)]) (simp_all add: r(3) assms(2))
    with eq enc show ?thesis by simp
  qed
qed

lemma decompress_compress_two_symbols:
  assumes "a \<in> set input" "b \<in> set input" "a \<noteq> b" "reverse_mapping st = Map.empty"
    and "compress input st = (Inr (buf, root), st')"
  shows "decompress buf st' = Inr input"
proof -
  from assms(1) have ne: "input \<noteq> []" by auto
  from compress_nonempty [OF ne] obtain root' enc h payload where
    r: "well_formed root'" "distinct (symbols root')" "set (symbols root') = set input"
      "enc = concat (map (\<lambda>c. the (map_of (code_list root' '''') c)) input)"
      "\<And>st. compress input st = (Inr (h # payload, root'), build_codes root' st)"
      "unpack_bits (h # payload) = pad_encoded_text enc"
    by metis
  from r(5) [of st] assms(5)
  have eq: "buf = h # payload" "root' = root" "st' = build_codes root' st"
    by simp_all
  from r(1) assms(1,2,3) r(3) obtain f l rr where m: "root' = Node None f (Some l) (Some rr)"
    by (auto elim: two_symbols_merged)
  have "decode_loop (reverse_mapping st') enc [] [] = ([], input)"
    unfolding r(4) eq(3)
    by (rule decode_encoded_merged [OF m r(1,2)]) (simp_all add: r(3) assms(4))
  then have "decode_text enc st' = input"
    by (simp add: decode_text_def)
  moreover have "remove_padding (unpack_bits buf) = Inr enc"
    unfolding eq(1) r(6) by (rule remove_padding_pad_encoded_text)
  ultimately show ?thesis
    by (simp add: decompress_def)
qed

lemma single_symbol_lost:
  assumes "input \<noteq> []" "set input = {x}"
  shows "\<exists>buf f. compress input st =
             (Inr (buf, Node (Some x) f None None), build_codes (Node (Some x) f None None) st) \<and>
           codes (build_codes (Node (Some x) f None None) st) x = Some [] \<and>
           decompress buf (build_codes (Node (Some x) f None None) st) = Inr []"
proof -
  from compress_nonempty [OF assms(1)] obtain root enc h payload where
    r: "well_formed root" "distinct (symbols root)" "set (symbols root) = set input"
      "enc = concat (map (\<lambda>c. the (map_of (code_list root '''') c)) input)"
      "\<And>st. compress input st = (Inr (h # payload, root), build_codes root st)"
      "unpack_bits (h # payload) = pad_encoded_text enc"
    by metis
  from r(1,2,3) assms(2) obtain f where leaf: "root = Node (Some x) f None None"
    by (auto elim: one_symbol_leaf)
  have enc: "enc = []"
    unfolding r(4) using r(3) by (intro encoded_leaf_empty [OF leaf]) simp
  have "remove_padding (unpack_bits (h # payload)) = Inr enc"
    unfolding r(6) by (rule remove_padding_pad_encoded_text)
  then have "decompress (h # payload) (build_codes root st) = Inr []"
    by (simp add: decompress_def enc decode_text_def)
  moreover have "codes (build_codes root st) x = Some []"
    by (rule codes_build_codes_member) (simp_all add: leaf)
  ultimately show ?thesis
    using r(5) [of st] unfolding leaf by blast
qed

section \<open>The tables after compress\<close>

text \<open>
  \<open>build_codes\<close> only adds and overwrites entries, and writing the codes of the same tree
  again changes nothing. After \<open>compress\<close> every symbol of the input has the code of its
  path in the tree, a string of binary digits, the inverse table maps that code back to
  the symbol, and the codes of two different symbols are not prefixes of each other.
\<close>

lemma compress_Nil: "compress [] st = (Inl IndexError, st)"
  by (simp add: compress_def build_frequency_dict_def build_heap_def heapify_def
      merge_nodes.simps)

lemma foldl_assign_twice: "foldl assign (foldl assign st L) L = foldl assign st L"
proof (rule codec.equality)
  show "codes (foldl assign (foldl assign st L) L) = codes (foldl assign st L)"
    by (rule ext) (simp add: codes_foldl_assign split: option.splits)
  show "reverse_mapping (foldl assign (foldl assign st L) L) = reverse_mapping (foldl assign st L)"
    by (rule ext) (simp add: reverse_mapping_foldl_assign split: option.splits)
  show "codec.more (foldl assign (foldl assign st L) L) = codec.more (foldl assign st L)"
    by simp
qed

lemma build_codes_twice: "build_codes root (build_codes root st) = build_codes root st"
  by (simp add: build_codes_code_list foldl_assign_twice)

lemma dom_codes_foldl_assign: "dom (codes st) \<subseteq> dom (codes (foldl assign st L))"
  by (auto simp: codes_foldl_assign split: option.splits)

lemma dom_reverse_mapping_foldl_assign:
  "dom (reverse_mapping st) \<subseteq> dom (reverse_mapping (foldl assign st L))"
  by (auto simp: reverse_mapping_foldl_assign split: option.splits)

lemma slice_all_padding: "length s \<le> 8 + p \<Longrightarrow> slice s 8 (- int p) = []"
proof (cases "p = 0")
  case True
  then show ?thesis by (simp add: slice_def)
next
  case False
  assume "length s \<le> 8 + p"
  then have "max 0 (int (length s) - int p) \<le> 8" by simp
  then have "nat (max 0 (- int p + int (length s))) \<le> 8" by simp
  with False show ?thesis by (simp add: slice_def Let_def)
qed

lemma codes_of_compress:
  assumes "compress input st = (Inr (buf, root), st')" "x \<in> set input"
  shows "\<exists>p. codes st' x = Some p \<and> reverse_mapping st' p = Some x \<and> list_all is_bit p \<and>
           (x, p) \<in> set (code_list root '''')"
proof -
  from assms(2) have ne: "input \<noteq> []" by auto
  from compress_nonempty [OF ne] obtain root' h payload where
    r: "well_formed root'" "distinct (symbols root')" "set (symbols root') = set input"
      "\<And>st. compress input st = (Inr (h # payload, root'), build_codes root' st)"
    by metis
  from r(4) [of st] assms(1) have eq: "root' = root" "st' = build_codes root st" by simp_all
  from assms(2) r(3) eq(1) symbol_has_code [of x root] obtain p where
    p: "(x, p) \<in> set (code_list root '''')" by auto
  have "codes st' x = Some p"
    unfolding eq(2) using r(2) p unfolding eq(1) by (rule codes_build_codes_member)
  moreover have "reverse_mapping st' p = Some x"
    unfolding eq(2) using r(1) p unfolding eq(1) by (rule reverse_mapping_build_codes_member)
  moreover have "list_all is_bit p" using p by (rule code_list_bits)
  ultimately show ?thesis using p by blast
qed

lemma codes_of_compress_prefix_free:
  assumes "compress input st = (Inr (buf, root), st')" "x \<in> set input" "y \<in> set input" "x \<noteq> y"
    and "codes st' x = Some p" "codes st' y = Some q"
  shows "\<not> prefix p q"
proof -
  from assms(2) have ne: "input \<noteq> []" by auto
  from compress_nonempty [OF ne] obtain root' h payload where
    r: "well_formed root'" 
      "\<And>st. compress input st = (Inr (h # payload, root'), build_codes root' st)"
    by metis
  from r(2) [of st] assms(1) have eq: "root' = root" by simp
  from codes_of_compress [OF assms(1,2)] assms(5) have p: "(x, p) \<in> set (code_list root '''')"
    by auto
  from codes_of_compress [OF assms(1,3)] assms(6) have q: "(y, q) \<in> set (code_list root '''')"
    by auto
  from assms(4) have "(x, p) \<noteq> (y, q)" by simp
  from code_list_incomparable [OF r(1) [unfolded eq] p q this] show ?thesis
    by (simp add: incomparable_def)
qed

section \<open>Decompression is total on a non-empty buffer\<close>

text \<open>
  C8. For every non-empty byte sequence and every inverse code table, also the empty one,
  \<open>decompress\<close> returns a string and raises nothing: the header is eight binary digits,
  the slice is total, and the scan is a structural recursion over the bits.
\<close>

theorem decompress_total:
  assumes "compressed_data \<noteq> []"
  shows "\<exists>decoded. decompress compressed_data st = Inr decoded"
proof -
  from assms obtain b data where "compressed_data = b # data"
    by (cases compressed_data) auto
  then show ?thesis
    by (simp add: decompress_Cons)
qed

theorem decompress_total_witness:
  "[3, 160 :: byte] \<noteq> [] \<and>
   (\<exists>decoded. decompress [3, 160] (HuffmanCoding_init :: char codec) = Inr decoded)"
  using decompress_total [of "[3, 160]" "HuffmanCoding_init :: char codec"] by simp

text \<open>
  C9. A buffer whose first byte is 0 decompresses to the empty string whatever follows:
  the declared padding 0 makes the slice \<^verbatim>\<open>[8:-0]\<close>, which is \<^verbatim>\<open>[8:0]\<close> and empty.
\<close>

theorem decompress_zero_header: "decompress (0 # payload) st = Inr []"
  by (simp add: decompress_Cons slice_def decode_text_def)

section \<open>Malformed buffers\<close>

text \<open>
  C3 does not hold of the code. With the inverse table \<open>00 \<mapsto> a\<close>, the buffer
  \<open>[5, 0]\<close> has the payload 000: the scan emits one symbol and ends with the unmatched
  candidate 0, and \<open>decompress\<close> returns the partial output. The headers 200 and 9 exceed
  8, and 200 exceeds the bit length; both buffers are decoded without an error.
\<close>

theorem decompress_returns_partial_output:
  "decode_loop [''00'' \<mapsto> CHR ''a''] ''000'' [] [] = (''0'', ''a'') \<and>
   decompress [5, 0] \<lparr>codes = Map.empty, reverse_mapping = [''00'' \<mapsto> CHR ''a'']\<rparr> = Inr ''a'' \<and>
   decompress [5, 0] \<lparr>codes = Map.empty, reverse_mapping = [''00'' \<mapsto> CHR ''a'']\<rparr> \<noteq>
     Inl CorruptStreamError \<and>
   decompress [200, 0] \<lparr>codes = Map.empty, reverse_mapping = [''00'' \<mapsto> CHR ''a'']\<rparr> = Inr '''' \<and>
   decompress [9, 0, 0] \<lparr>codes = Map.empty, reverse_mapping = [''00'' \<mapsto> CHR ''a'']\<rparr> = Inr ''aaa''"
  by code_simp

text \<open>
  C3, as the code has it. \<open>decompress\<close> validates nothing: on a non-empty buffer it returns
  the symbols the scan decoded, whatever candidate code is left at the end, and it returns
  the empty string when the declared padding is at least the number of bits after the
  header.
\<close>

theorem decompress_never_detects_corruption:
  assumes "compressed_data \<noteq> []"
    and "decode_loop (reverse_mapping st)
           (slice (unpack_bits compressed_data) 8 (- int (unat (hd compressed_data)))) [] [] =
         (candidate, decoded)"
  shows "decompress compressed_data st = Inr decoded \<and>
         (8 * (length compressed_data - 1) \<le> unat (hd compressed_data) \<longrightarrow> decoded = [])"
proof -
  from assms(1) obtain b data where bd: "compressed_data = b # data"
    by (cases compressed_data) auto
  have "decompress compressed_data st = Inr decoded"
    using assms(2) by (simp add: bd decompress_Cons decode_text_def)
  moreover have "decoded = []" if "8 * (length compressed_data - 1) \<le> unat (hd compressed_data)"
  proof -
    have "slice (unpack_bits compressed_data) 8 (- int (unat (hd compressed_data))) = []"
      using that by (intro slice_all_padding) (simp add: length_unpack_bits bd)
    with assms(2) show ?thesis by simp
  qed
  ultimately show ?thesis by simp
qed

theorem decompress_never_detects_corruption_witness:
  "[5, 0 :: byte] \<noteq> [] \<and>
   decode_loop (reverse_mapping \<lparr>codes = Map.empty, reverse_mapping = [''00'' \<mapsto> CHR ''a'']\<rparr>)
     (slice (unpack_bits [5, 0]) 8 (- int (unat (hd [5, 0 :: byte])))) [] [] = (''0'', ''a'') \<and>
   decompress [5, 0] \<lparr>codes = Map.empty, reverse_mapping = [''00'' \<mapsto> CHR ''a'']\<rparr> = Inr ''a'' \<and>
   [200, 0 :: byte] \<noteq> [] \<and>
   8 * (length [200, 0 :: byte] - 1) \<le> unat (hd [200, 0 :: byte]) \<and>
   decompress [200, 0] \<lparr>codes = Map.empty, reverse_mapping = [''00'' \<mapsto> CHR ''a'']\<rparr> = Inr []"
proof -
  let ?st = "\<lparr>codes = Map.empty, reverse_mapping = [''00'' \<mapsto> CHR ''a'']\<rparr>"
  have ne: "[5, 0 :: byte] \<noteq> []" by simp
  have scan: "decode_loop (reverse_mapping ?st)
     (slice (unpack_bits [5, 0]) 8 (- int (unat (hd [5, 0 :: byte])))) [] [] = (''0'', ''a'')"
    by code_simp
  have ne': "[200, 0 :: byte] \<noteq> []" by simp
  have big: "8 * (length [200, 0 :: byte] - 1) \<le> unat (hd [200, 0 :: byte])" by simp
  obtain candidate decoded where scan': "decode_loop (reverse_mapping ?st)
     (slice (unpack_bits [200, 0]) 8 (- int (unat (hd [200, 0 :: byte])))) [] [] =
       (candidate, decoded)"
    by (cases "decode_loop (reverse_mapping ?st)
     (slice (unpack_bits [200, 0]) 8 (- int (unat (hd [200, 0 :: byte])))) [] []")
  from decompress_never_detects_corruption [OF ne' scan'] big
  have "decompress [200, 0] ?st = Inr []" by blast
  with decompress_never_detects_corruption [OF ne scan] ne scan ne' big show ?thesis by blast
qed

section \<open>The empty input\<close>

text \<open>
  C5 does not hold of the code as stated: the failure on the empty sequence is the
  \<^verbatim>\<open>IndexError\<close> of \<^verbatim>\<open>heap[0]\<close> in \<open>merge_nodes\<close>.
\<close>

theorem compress_empty_not_EmptyInputError:
  "fst (compress [] (HuffmanCoding_init :: char codec)) = Inl IndexError \<and>
   fst (compress [] (HuffmanCoding_init :: char codec)) \<noteq> Inl EmptyInputError"
  by (simp add: compress_def build_frequency_dict_def build_heap_def heapify_def
      merge_nodes.simps)

text \<open>
  C5, as the code has it. \<open>compress\<close> on the empty sequence fails with \<^verbatim>\<open>IndexError\<close>, and
  the tables of the codec are as before the call.
\<close>

theorem compress_empty: "compress [] st = (Inl IndexError, st)"
  by (simp add: compress_def build_frequency_dict_def build_heap_def heapify_def
      merge_nodes.simps)

section \<open>The padding\<close>

text \<open>
  C4 fails on the code for a codec object that is used again, as the one object of the
  user interface is. The tables are never cleared, so a codec that has compressed
  \<open>aabbbcc\<close> keeps the entry \<open>0 \<mapsto> b\<close> in its inverse table. When it then compresses
  \<open>xyzwx\<close>, the header and the stripping are as claimed, but the scan of the payload takes
  the old entry for a code, ends with the candidate 1 left over, and \<open>decompress\<close> returns
  \<open>xybbbx\<close>; the scan of the same payload with the table of a new codec leaves nothing
  over and returns the input.
\<close>

theorem reused_codec_scan_leftover:
  "fst (compress ''xyzwx'' (snd (compress ''aabbbcc'' HuffmanCoding_init))) =
     Inr ([6, 225, 192],
          Node None 5
            (Some (Node None 2 (Some (Node (Some (CHR ''z'')) 1 None None))
                               (Some (Node (Some (CHR ''w'')) 1 None None))))
            (Some (Node None 3 (Some (Node (Some (CHR ''y'')) 1 None None))
                               (Some (Node (Some (CHR ''x'')) 2 None None))))) \<and>
   get_encoded_text ''xyzwx''
     (snd (compress ''xyzwx'' (snd (compress ''aabbbcc'' HuffmanCoding_init)))) =
     Inr ''1110000111'' \<and>
   remove_padding (unpack_bits [6, 225, 192]) = Inr ''1110000111'' \<and>
   decode_loop
     (reverse_mapping (snd (compress ''xyzwx'' (snd (compress ''aabbbcc'' HuffmanCoding_init)))))
     ''1110000111'' [] [] = (''1'', ''xybbbx'') \<and>
   decompress [6, 225, 192]
     (snd (compress ''xyzwx'' (snd (compress ''aabbbcc'' HuffmanCoding_init)))) =
     Inr ''xybbbx'' \<and>
   decode_loop (reverse_mapping (snd (compress ''xyzwx'' HuffmanCoding_init)))
     ''1110000111'' [] [] = ([], ''xyzwx'')"
  by code_simp

text \<open>
  What the code does keep of the padding invariant. For every non-empty input and from
  every state of the codec, the first byte of the buffer is the padding count
  \<open>8 - length enc mod 8\<close> of the encoded text \<open>enc\<close>, between 1 and 8 (so 8 when the length
  is a multiple of 8); the unpacked buffer is the header, the encoded text and that many
  zeros; and removing the padding leaves the encoded text. The scan of the encoded text
  ends with no candidate code left when no entry of an earlier call is in the inverse
  table, as on a new codec.
\<close>

lemma padding_invariant:
  assumes "input \<noteq> []"
  shows "\<exists>h payload root st' enc.
           compress input st = (Inr (h # payload, root), st') \<and>
           get_encoded_text input st' = Inr enc \<and>
           unat h = 8 - length enc mod 8 \<and> 1 \<le> unat h \<and> unat h \<le> 8 \<and>
           unpack_bits (h # payload) =
             rjust 8 (CHR ''0'') (bin (unat h)) @ enc @ replicate (unat h) (CHR ''0'') \<and>
           remove_padding (unpack_bits (h # payload)) = Inr enc \<and>
           (reverse_mapping st = Map.empty \<longrightarrow>
              fst (decode_loop (reverse_mapping st') enc [] []) = [])"
proof -
  from compress_nonempty [OF assms] obtain root enc h payload where
    r: "\<And>st. get_encoded_text input (build_codes root st) = Inr enc"
      "\<And>st. compress input st = (Inr (h # payload, root), build_codes root st)"
      "unat h = 8 - length enc mod 8"
      "unpack_bits (h # payload) = pad_encoded_text enc"
    by metis
  let ?st = "build_codes root st"
  have c: "compress input st = (Inr (h # payload, root), ?st)"
    by (rule r(2))
  have g: "get_encoded_text input ?st = Inr enc"
    by (rule r(1))
  have range: "1 \<le> unat h" "unat h \<le> 8"
    unfolding r(3) by (rule extra_padding_range)+
  have layout: "unpack_bits (h # payload) =
      rjust 8 (CHR ''0'') (bin (unat h)) @ enc @ replicate (unat h) (CHR ''0'')"
    unfolding r(4) r(3) by (rule pad_encoded_text_eq)
  have strip: "remove_padding (unpack_bits (h # payload)) = Inr enc"
    unfolding r(4) by (rule remove_padding_pad_encoded_text)
  have scan: "reverse_mapping st = Map.empty \<longrightarrow>
      fst (decode_loop (reverse_mapping ?st) enc [] []) = []"
    using decode_leftover_empty [OF assms _ c g] by blast
  from c g r(3) range layout strip scan show ?thesis by blast
qed

lemma padding_invariant_new_codec:
  "''aabbbcc'' \<noteq> [] \<and>
   reverse_mapping (HuffmanCoding_init :: char codec) = Map.empty \<and>
   (\<exists>h payload root st' enc.
      compress ''aabbbcc'' HuffmanCoding_init = (Inr (h # payload, root), st') \<and>
      get_encoded_text ''aabbbcc'' st' = Inr enc \<and>
      unat h = 8 - length enc mod 8 \<and> 1 \<le> unat h \<and> unat h \<le> 8 \<and>
      unpack_bits (h # payload) =
        rjust 8 (CHR ''0'') (bin (unat h)) @ enc @ replicate (unat h) (CHR ''0'') \<and>
      remove_padding (unpack_bits (h # payload)) = Inr enc \<and>
      fst (decode_loop (reverse_mapping st') enc [] []) = [])"
proof -
  have ne: "''aabbbcc'' \<noteq> []" by simp
  have new: "reverse_mapping (HuffmanCoding_init :: char codec) = Map.empty"
    by (simp add: HuffmanCoding_init_def)
  from padding_invariant [OF ne, of "HuffmanCoding_init :: char codec"] new
  show ?thesis by blast
qed

section \<open>Determinism\<close>

text \<open>
  C7. \<open>compress\<close> is a function of its input: the bytes and the tree it returns are the
  same from any two codec states, so from two new codecs in particular, where the tables
  are the same as well; and compressing the same input a second time on the same codec
  leaves the tables exactly as the first call left them.
\<close>

theorem compress_deterministic:
  "fst (compress input st1) = fst (compress input st2) \<and>
   snd (compress input (snd (compress input st1))) = snd (compress input st1)"
proof (cases "input = []")
  case True
  then show ?thesis by (simp add: compress_Nil)
next
  case False
  from compress_nonempty [OF False] obtain root h payload where
    "\<And>st. compress input st = (Inr (h # payload, root), build_codes root st)"
    by metis
  then show ?thesis by (simp add: build_codes_twice)
qed

section \<open>The tables only grow\<close>

text \<open>
  C10. \<open>compress\<close> removes no entry of the two tables. After a call \<open>compress B\<close> every
  symbol-to-code entry whose symbol is not in \<open>B\<close>, and every code-to-symbol entry whose
  code is not the new code of a symbol of \<open>B\<close>, is as before the call, and the key sets
  have not shrunk; so the tables can hold symbols that do not occur in \<open>B\<close>.
\<close>

theorem compress_keeps_entries:
  assumes "compress B st1 = (r, st2)"
  shows "(\<forall>k v. k \<notin> set B \<and> codes st1 k = Some v \<longrightarrow> codes st2 k = Some v) \<and>
         (\<forall>p c. (\<forall>x\<in>set B. codes st2 x \<noteq> Some p) \<and> reverse_mapping st1 p = Some c \<longrightarrow>
                reverse_mapping st2 p = Some c) \<and>
         dom (codes st1) \<subseteq> dom (codes st2) \<and>
         dom (reverse_mapping st1) \<subseteq> dom (reverse_mapping st2)"
proof (cases "B = []")
  case True
  with assms have "st2 = st1" by (simp add: compress_Nil)
  then show ?thesis by simp
next
  case False
  from compress_nonempty [OF False] obtain root h payload where
    r: "well_formed root" "distinct (symbols root)" "set (symbols root) = set B"
      "\<And>st. compress B st = (Inr (h # payload, root), build_codes root st)"
    by metis
  from r(4) [of st1] assms have st2: "st2 = build_codes root st1" by simp
  have a: "codes st2 k = codes st1 k" if "k \<notin> set B" for k
    unfolding st2 using that r(3) by (intro codes_build_codes_other) simp
  have b: "reverse_mapping st2 p = reverse_mapping st1 p"
    if "\<forall>x\<in>set B. codes st2 x \<noteq> Some p" for p
  proof -
    have "p \<notin> snd ` set (code_list root '''')"
    proof
      assume "p \<in> snd ` set (code_list root '''')"
      then obtain x where x: "(x, p) \<in> set (code_list root '''')" by auto
      then have "x \<in> set (symbols root)"
        unfolding symbols_def by force
      moreover have "codes st2 x = Some p"
        unfolding st2 by (rule codes_build_codes_member [OF r(2) x])
      ultimately show False using that r(3) by auto
    qed
    then show ?thesis
      unfolding st2 by (rule reverse_mapping_build_codes_other)
  qed
  have c: "dom (codes st1) \<subseteq> dom (codes st2)"
    unfolding st2 build_codes_code_list by (rule dom_codes_foldl_assign)
  have d: "dom (reverse_mapping st1) \<subseteq> dom (reverse_mapping st2)"
    unfolding st2 build_codes_code_list by (rule dom_reverse_mapping_foldl_assign)
  from a b c d show ?thesis by simp
qed

theorem compress_keeps_entries_witness:
  "(\<exists>r. compress ''xy'' (snd (compress ''aabbbcc'' HuffmanCoding_init)) =
      (r, snd (compress ''xy'' (snd (compress ''aabbbcc'' HuffmanCoding_init))))) \<and>
   CHR ''a'' \<notin> set ''xy'' \<and>
   codes (snd (compress ''aabbbcc'' HuffmanCoding_init)) (CHR ''a'') = Some ''11'' \<and>
   codes (snd (compress ''xy'' (snd (compress ''aabbbcc'' HuffmanCoding_init)))) (CHR ''a'') =
     Some ''11'' \<and>
   reverse_mapping (snd (compress ''aabbbcc'' HuffmanCoding_init)) ''10'' = Some (CHR ''c'') \<and>
   reverse_mapping (snd (compress ''xy'' (snd (compress ''aabbbcc'' HuffmanCoding_init)))) ''10'' =
     Some (CHR ''c'')"
proof -
  let ?st1 = "snd (compress ''aabbbcc'' (HuffmanCoding_init :: char codec))"
  let ?st2 = "snd (compress ''xy'' ?st1)"
  have run: "compress ''xy'' ?st1 = (fst (compress ''xy'' ?st1), ?st2)" by simp
  have old: "codes ?st1 (CHR ''a'') = Some ''11''" by code_simp
  have old': "reverse_mapping ?st1 ''10'' = Some (CHR ''c'')" by code_simp
  have notin: "CHR ''a'' \<notin> set ''xy''" by simp
  have fresh: "\<forall>x\<in>set ''xy''. codes ?st2 x \<noteq> Some ''10''" by code_simp
  from compress_keeps_entries [OF run] notin old
  have "codes ?st2 (CHR ''a'') = Some ''11''" by blast
  moreover from compress_keeps_entries [OF run] fresh old'
  have "reverse_mapping ?st2 ''10'' = Some (CHR ''c'')" by blast
  ultimately show ?thesis using run old old' notin by blast
qed

section \<open>An input with one distinct symbol\<close>

text \<open>
  C1 fails on the code for an input with one distinct symbol. \<open>merge_nodes\<close> returns the
  only leaf as the root, the symbol gets the empty code, nothing is encoded, and
  decompressing the buffer of \<open>aaaa\<close> returns the empty string.
\<close>

theorem single_symbol_round_trip_fails:
  "(case compress ''aaaa'' HuffmanCoding_init of
      (Inr (buf, root), st') \<Rightarrow> decompress buf st'
    | (Inl e, st') \<Rightarrow> Inl e) = Inr '''' \<and>
   (case compress ''aaaa'' HuffmanCoding_init of
      (Inr (buf, root), st') \<Rightarrow> decompress buf st'
    | (Inl e, st') \<Rightarrow> Inl e) \<noteq> Inr ''aaaa''"
  by code_simp

text \<open>
  C2 fails on the code: for \<open>aaaa\<close> the root is the bare leaf, not a merged node around it,
  the code of the symbol is the empty string and not one bit, the buffer is the header 8
  and one byte of padding, and it decompresses to the empty string.
\<close>

theorem single_symbol_bare_leaf:
  "fst (compress ''aaaa'' HuffmanCoding_init) = Inr ([8, 0], Node (Some (CHR ''a'')) 4 None None) \<and>
   codes (snd (compress ''aaaa'' HuffmanCoding_init)) (CHR ''a'') = Some '''' \<and>
   decompress [8, 0] (snd (compress ''aaaa'' HuffmanCoding_init)) = Inr ''''"
  by code_simp

text \<open>
  C6 fails on the code for the same input: the code table built from the tree of
  \<open>aaaa\<close> maps the symbol to the empty string, and the inverse table maps the empty
  string to the symbol.
\<close>

theorem single_symbol_empty_code:
  "merge_nodes (build_heap (build_frequency_dict ''aaaa'')) = Inr (Node (Some (CHR ''a'')) 4 None None) \<and>
   codes (build_codes (Node (Some (CHR ''a'')) 4 None None) HuffmanCoding_init) (CHR ''a'') = Some '''' \<and>
   reverse_mapping (build_codes (Node (Some (CHR ''a'')) 4 None None) HuffmanCoding_init) '''' =
     Some (CHR ''a'')"
  by code_simp


end
